theory Spec2Isabelle
  imports Complex_Main
begin

section \<open>Board constants\<close>

text \<open>
  The class constants of \<open>MonopolySimulation\<close>. Probabilities are Python floats in the
  source; the model computes with exact rationals, so every statement below is about the
  exact value of the arithmetic expression the source writes down.
\<close>

definition BOARD_SIZE :: nat where "BOARD_SIZE = 40"
definition MAX_ROLL :: nat where "MAX_ROLL = 12"
definition MIN_ROLL :: nat where "MIN_ROLL = 2"
definition JAIL_SQUARE :: nat where "JAIL_SQUARE = 10"
definition GO_TO_JAIL_SQUARE :: nat where "GO_TO_JAIL_SQUARE = 30"
definition COMMUNITY_CHEST :: "nat list" where "COMMUNITY_CHEST = [2, 17, 33]"
definition CHANCE :: "nat list" where "CHANCE = [7, 22, 36]"
definition STATIONS :: "nat list" where "STATIONS = [5, 15, 25, 35]"
definition UTILITIES :: "nat list" where "UTILITIES = [12, 28]"

definition board_spaces :: "string list" where
  "board_spaces =
    [''GO'', ''Old Kent Road'', ''Community Chest 1'', ''Whitechapel Road'', ''Income Tax'',
     ''Kings Cross Station'', ''The Angel Islington'', ''Chance 1'', ''Euston Road'',
     ''Pentonville Road'',
     ''Jail'', ''Pall Mall'', ''Electric Company'', ''Whitehall'', ''Northumberland Avenue'',
     ''Marylebone Station'', ''Bow Street'', ''Community Chest 2'', ''Marlborough Street'',
     ''Vine Street'',
     ''Free Parking'', ''Strand'', ''Chance 2'', ''Fleet Street'', ''Trafalgar Square'',
     ''Fenchurch St Station'', ''Leicester Square'', ''Coventry Street'', ''Water Works'',
     ''Piccadilly'',
     ''Go To Jail'', ''Regent Street'', ''Oxford Street'', ''Community Chest 3'', ''Bond Street'',
     ''Liverpool St Station'', ''Chance 3'', ''Park Lane'', ''Super Tax'', ''Mayfair'']"

section \<open>The dice distribution\<close>

text \<open>
  \<open>calculate_dice_probabilities\<close>: a list of \<open>MAX_ROLL + 1\<close> zeros, one count added at
  index \<open>die1 + die2\<close> for each of the 36 pairs, then the entries at indices
  \<open>MIN_ROLL .. MAX_ROLL\<close> divided by 36.
\<close>

definition count_dice :: "rat list" where
  "count_dice =
     foldl (\<lambda>probs die1.
        foldl (\<lambda>probs die2. probs[die1 + die2 := probs ! (die1 + die2) + 1]) probs [1..<7])
       (replicate (MAX_ROLL + 1) 0) [1..<7]"

definition calculate_dice_probabilities :: "rat list" where
  "calculate_dice_probabilities =
     foldl (\<lambda>probs i. probs[i := probs ! i / 36]) count_dice [MIN_ROLL..<MAX_ROLL + 1]"

section \<open>The transition matrix\<close>

type_synonym matrix = "rat list list"

text \<open>\<open>matrix[i][j] += p\<close> on a two-dimensional array.\<close>

definition add_entry :: "matrix \<Rightarrow> nat \<Rightarrow> nat \<Rightarrow> rat \<Rightarrow> matrix" where
  "add_entry m i j p = m[i := (m ! i)[j := m ! i ! j + p]]"

text \<open>
  \<open>next((s for s in STATIONS if s > to_square), STATIONS[0])\<close> and the same search over
  \<open>UTILITIES\<close>: the first list element strictly greater than the square, else the first
  element of the list.
\<close>

definition nearest_station :: "nat \<Rightarrow> nat" where
  "nearest_station to_square =
     (case List.find (\<lambda>s. s > to_square) STATIONS of Some s \<Rightarrow> s | None \<Rightarrow> STATIONS ! 0)"

definition nearest_utility :: "nat \<Rightarrow> nat" where
  "nearest_utility to_square =
     (case List.find (\<lambda>u. u > to_square) UTILITIES of Some u \<Rightarrow> u | None \<Rightarrow> UTILITIES ! 0)"

text \<open>
  \<open>(to_square - 3) % BOARD_SIZE\<close> is Python's integer arithmetic: the difference may be
  negative and \<open>%\<close> returns a result in \<open>0 .. 39\<close>.
\<close>

definition back_three :: "nat \<Rightarrow> nat" where
  "back_three to_square = nat ((int to_square - 3) mod int BOARD_SIZE)"

text \<open>
  The body of the inner loop, in the order of the source. First the three-doubles
  addition, guarded by \<open>from_square != GO_TO_JAIL_SQUARE\<close>:
\<close>

definition doubles_step :: "matrix \<Rightarrow> nat \<Rightarrow> matrix" where
  "doubles_step m from_square =
     (if from_square \<noteq> GO_TO_JAIL_SQUARE
      then add_entry m from_square JAIL_SQUARE ((1 / 12) ^ 3)
      else m)"

text \<open>then the \<open>if / elif / elif / else\<close> chain on the raw destination:\<close>

definition landing_step :: "rat list \<Rightarrow> matrix \<Rightarrow> nat \<Rightarrow> nat \<Rightarrow> matrix" where
  "landing_step dice_probs m from_square roll =
     (let to_square = (from_square + roll) mod BOARD_SIZE in
      if to_square = GO_TO_JAIL_SQUARE then
        add_entry m from_square JAIL_SQUARE (dice_probs ! roll)
      else if to_square \<in> set COMMUNITY_CHEST then
        (let m = add_entry m from_square to_square (dice_probs ! roll * 14 / 16);
             m = add_entry m from_square 0 (dice_probs ! roll * 1 / 16);
             m = add_entry m from_square JAIL_SQUARE (dice_probs ! roll * 1 / 16)
         in m)
      else if to_square \<in> set CHANCE then
        (let m = add_entry m from_square to_square (dice_probs ! roll * 6 / 16);
             m = add_entry m from_square 0 (dice_probs ! roll * 1 / 16);
             m = add_entry m from_square 24 (dice_probs ! roll * 1 / 16);
             m = add_entry m from_square 39 (dice_probs ! roll * 1 / 16);
             m = add_entry m from_square 11 (dice_probs ! roll * 1 / 16);
             m = add_entry m from_square 5 (dice_probs ! roll * 1 / 16);
             m = add_entry m from_square JAIL_SQUARE (dice_probs ! roll * 1 / 16);
             m = add_entry m from_square (back_three to_square) (dice_probs ! roll * 1 / 16);
             m = add_entry m from_square (nearest_station to_square) (dice_probs ! roll * 1 / 8);
             m = add_entry m from_square (nearest_utility to_square) (dice_probs ! roll * 1 / 16)
         in m)
      else
        add_entry m from_square to_square (dice_probs ! roll))"

definition roll_body :: "rat list \<Rightarrow> matrix \<Rightarrow> nat \<Rightarrow> nat \<Rightarrow> matrix" where
  "roll_body dice_probs m from_square roll =
     landing_step dice_probs (doubles_step m from_square) from_square roll"

definition generate_transition_matrix :: matrix where
  "generate_transition_matrix =
     (let matrix = replicate BOARD_SIZE (replicate BOARD_SIZE 0);
          dice_probs = calculate_dice_probabilities
      in foldl (\<lambda>matrix from_square.
                  foldl (\<lambda>matrix roll. roll_body dice_probs matrix from_square roll)
                    matrix [MIN_ROLL..<MAX_ROLL + 1])
           matrix [0..<BOARD_SIZE])"

section \<open>The chain sampler\<close>

text \<open>
  The landing counter is a \<open>defaultdict(int)\<close> keyed by square name. It is modelled as an
  association list in insertion order, read as a dictionary by \<open>map_of\<close>;
  \<open>bump d k\<close> is \<open>d[k] += 1\<close>, which inserts the key with count 1 when it is missing.
\<close>

type_synonym counts = "(string \<times> int) list"

fun bump :: "counts \<Rightarrow> string \<Rightarrow> counts" where
  "bump [] k = [(k, 0 + 1)]"
| "bump ((k', v) # d) k = (if k' = k then (k', v + 1) # d else (k', v) # bump d k)"

record simulation =
  current_position :: nat
  landings :: counts
  move_history :: "counts list"
  transition_matrix :: matrix
  moves_count :: int

definition init :: simulation where
  "init = \<lparr>current_position = 0, landings = [], move_history = [],
           transition_matrix = generate_transition_matrix, moves_count = 0\<rparr>"

text \<open>
  The failures \<open>move\<close> can end in: an index outside the matrix or the board
  (\<open>IndexError\<close>), and the \<open>ValueError\<close> that \<open>np.random.choice\<close> raises when the
  probabilities it is given are not as many as the \<open>BOARD_SIZE\<close> values of
  \<open>range(BOARD_SIZE)\<close>, contain NaN (a row whose sum is zero) or have a negative entry.
\<close>

datatype error = IndexError | ValueError

text \<open>
  \<open>move\<close>. The call \<open>np.random.choice(range(BOARD_SIZE), p=...)\<close> is the one place where
  the pseudo-random source is read; the model takes the behaviour of that call as the
  parameter \<open>choice\<close>, a function from the probabilities to the index drawn. Dividing the
  row by its sum builds a new array, bound to the local name; the matrix is only read.
\<close>

definition move :: "(rat list \<Rightarrow> nat) \<Rightarrow> simulation \<Rightarrow> error + simulation" where
  "move choice s =
     (if length (transition_matrix s) \<le> current_position s then Inl IndexError
      else
        let row = transition_matrix s ! current_position s;
            total = sum_list row
        in if length row \<noteq> BOARD_SIZE \<or> total = 0 \<or> (\<exists>x\<in>set row. x / total < 0)
           then Inl ValueError
           else
             let current_position_probabilities = map (\<lambda>x. x / total) row;
                 next_position = choice current_position_probabilities
             in if length board_spaces \<le> next_position then Inl IndexError
                else
                  let space = board_spaces ! next_position;
                      landings' = bump (landings s) space;
                      moves_count' = moves_count s + 1;
                      move_history' =
                        (if moves_count' mod 100 = 0 then move_history s @ [landings']
                         else move_history s)
                  in Inr (s\<lparr>current_position := next_position,
                            landings := landings',
                            moves_count := moves_count',
                            move_history := move_history'\<rparr>))"

text \<open>
  The loop of \<open>run_simulation\<close>: \<open>num_moves\<close> calls of \<open>move\<close> on one simulation object.
  \<open>choice k\<close> is the behaviour of the pseudo-random source at its \<open>k\<close>-th call, so a seed
  is a value of \<open>choice\<close>. An exception ends the loop.
\<close>

fun run_moves :: "(nat \<Rightarrow> rat list \<Rightarrow> nat) \<Rightarrow> nat \<Rightarrow> simulation \<Rightarrow> error + simulation" where
  "run_moves choice 0 s = Inr s"
| "run_moves choice (Suc n) s =
     (case run_moves choice n s of Inl e \<Rightarrow> Inl e | Inr s' \<Rightarrow> move (choice n) s')"

section \<open>Notions used in the statements\<close>

text \<open>A 40 by 40 array.\<close>

definition dims :: "matrix \<Rightarrow> bool" where
  "dims m \<longleftrightarrow> length m = 40 \<and> (\<forall>i<40. length (m ! i) = 40)"

text \<open>The loops of \<open>generate_transition_matrix\<close>, named.\<close>

definition rolls_loop :: "rat list \<Rightarrow> matrix \<Rightarrow> nat \<Rightarrow> nat list \<Rightarrow> matrix" where
  "rolls_loop dice m i rs = foldl (\<lambda>matrix roll. roll_body dice matrix i roll) m rs"

definition squares_loop :: "rat list \<Rightarrow> matrix \<Rightarrow> nat list \<Rightarrow> matrix" where
  "squares_loop dice m sqs =
     foldl (\<lambda>matrix from_square. rolls_loop dice matrix from_square [2..<13]) m sqs"

text \<open>
  The mass that the roll \<open>r\<close> from square \<open>i\<close> puts on column \<open>j\<close>: what the
  \<open>if / elif\<close> chain adds to an array of zeros.
\<close>

definition landing_mass :: "rat list \<Rightarrow> nat \<Rightarrow> nat \<Rightarrow> nat \<Rightarrow> rat" where
  "landing_mass dice i r j = landing_step dice (replicate 40 (replicate 40 0)) i r ! i ! j"

text \<open>The mass that one iteration of the inner loop puts on column \<open>j\<close> of row \<open>i\<close>.\<close>

definition roll_mass :: "rat list \<Rightarrow> nat \<Rightarrow> nat \<Rightarrow> nat \<Rightarrow> rat" where
  "roll_mass dice i r j =
     (if i \<noteq> 30 \<and> j = 10 then (1 / 12) ^ 3 else 0) + landing_mass dice i r j"

text \<open>
  The spec's words for the card destinations "nearest station / utility after \<open>d\<close>": the
  smallest index of the list strictly greater than \<open>d\<close>, and the smallest index of the list
  when none is greater.
\<close>

definition spec_nearest_after :: "nat list \<Rightarrow> nat \<Rightarrow> nat" where
  "spec_nearest_after xs d =
     (if filter (\<lambda>x. d < x) xs = [] then Min (set xs) else Min (set (filter (\<lambda>x. d < x) xs)))"

text \<open>
  For comparison: the construction with the three-doubles addition left out, so that only
  the \<open>if / elif\<close> chain on the destination contributes.
\<close>

definition landing_only_matrix :: matrix where
  "landing_only_matrix =
     foldl (\<lambda>matrix from_square.
              foldl (\<lambda>matrix roll. landing_step calculate_dice_probabilities matrix from_square roll)
                matrix [2..<13])
       (replicate 40 (replicate 40 0)) [0..<40]"

text \<open>
  What the sampler is assumed to do. \<open>np.random.choice(range(n), p=p)\<close>, given
  non-negative probabilities that sum to 1, returns an index below \<open>n\<close> whose probability
  is positive.
\<close>

definition distribution :: "rat list \<Rightarrow> bool" where
  "distribution p \<longleftrightarrow> list_all (\<lambda>x. 0 \<le> x) p \<and> sum_list p = 1"

definition draws_from :: "(rat list \<Rightarrow> nat) \<Rightarrow> bool" where
  "draws_from choice \<longleftrightarrow> (\<forall>p. distribution p \<longrightarrow> choice p < length p \<and> 0 < p ! choice p)"

text \<open>
  A sampler of that kind, the one the spec's design notes ask for: the
  cumulative-distribution search on a uniform variate \<open>u\<close> with \<open>0 \<le> u < 1\<close>. The index
  drawn is the number of entries of the normalised running sums that are at most \<open>u\<close>.
\<close>

fun cumsum_from :: "rat \<Rightarrow> rat list \<Rightarrow> rat list" where
  "cumsum_from acc [] = []"
| "cumsum_from acc (x # xs) = (acc + x) # cumsum_from (acc + x) xs"

definition inverse_cdf_choice :: "rat \<Rightarrow> rat list \<Rightarrow> nat" where
  "inverse_cdf_choice u p =
     (let cdf = cumsum_from 0 p;
          cdf = map (\<lambda>c. c / last cdf) cdf
      in length (takeWhile (\<lambda>c. c \<le> u) cdf))"

text \<open>Reading a key of the landing counter; a missing key counts 0.\<close>

definition count_of :: "counts \<Rightarrow> string \<Rightarrow> int" where
  "count_of d k = (case map_of d k of None \<Rightarrow> 0 | Some v \<Rightarrow> v)"

text \<open>
  One snapshot is below another: every key of the first is a key of the second, with a
  count at least as large.
\<close>

definition counts_le :: "counts \<Rightarrow> counts \<Rightarrow> bool" where
  "counts_le a b \<longleftrightarrow>
     list_all (\<lambda>k. case map_of b k of None \<Rightarrow> False | Some v' \<Rightarrow> the (map_of a k) \<le> v')
       (map fst a)"

text \<open>The state after \<open>n\<close> moves from the initial state: what every move preserves.\<close>

definition move_invariant :: "nat \<Rightarrow> simulation \<Rightarrow> bool" where
  "move_invariant n s \<longleftrightarrow>
     current_position s < 40 \<and> current_position s \<noteq> 30
     \<and> transition_matrix s = generate_transition_matrix
     \<and> moves_count s = int n
     \<and> distinct (map fst (landings s))
     \<and> sum_list (map snd (landings s)) = int n
     \<and> map_of (landings s) ''Go To Jail'' = None
     \<and> length (move_history s) = n div 100
     \<and> (\<forall>t. Suc t < length (move_history s) \<longrightarrow>
            counts_le (move_history s ! t) (move_history s ! Suc t))
     \<and> (\<forall>h\<in>set (move_history s). counts_le h (landings s))"

section \<open>Auxiliary facts\<close>

subsection \<open>Ranges and the dice distribution\<close>

lemma upt_2_13: "[2..<13] = [2, 3, 4, 5, 6, 7, 8, 9, 10, 11, 12::nat]"
  by (simp add: upt_rec)

lemma upt_1_7: "[1..<7] = [1, 2, 3, 4, 5, 6::nat]"
  by (simp add: upt_rec)

lemma count_dice_eq: "count_dice = [0, 0, 1, 2, 3, 4, 5, 6, 5, 4, 3, 2, 1]"
  by (simp add: count_dice_def MAX_ROLL_def upt_1_7 numeral_eq_Suc)

lemma dice_eq: "calculate_dice_probabilities =
   [0, 0, 1/36, 2/36, 3/36, 4/36, 5/36, 6/36, 5/36, 4/36, 3/36, 2/36, 1/36]"
  by (simp add: calculate_dice_probabilities_def count_dice_eq MAX_ROLL_def MIN_ROLL_def upt_2_13)

lemma doubles_value: "(1 / 12) ^ 3 = (1 / 1728 :: rat)"
  by (simp add: power_divide)

lemma dice_total: "(\<Sum>r\<leftarrow>[2..<13]. calculate_dice_probabilities ! r) = 1"
  by (simp add: dice_eq upt_2_13)

lemma dice_nonneg: "r \<in> set [2..<13] \<Longrightarrow> 0 \<le> calculate_dice_probabilities ! r"
  unfolding upt_2_13 by (auto simp add: dice_eq)

subsection \<open>Array updates\<close>

lemma length_add_entry [simp]: "length (add_entry m i j p) = length m"
  by (simp add: add_entry_def)

lemma length_row_add_entry [simp]: "length (add_entry m i j p ! i') = length (m ! i')"
  by (cases "i < length m"; cases "i' = i") (simp_all add: add_entry_def list_update_beyond)

lemma dims_add_entry [simp]: "dims m \<Longrightarrow> dims (add_entry m i j p)"
  by (simp add: dims_def)

lemma nth_add_entry:
  "dims m \<Longrightarrow> i < 40 \<Longrightarrow> j < 40 \<Longrightarrow>
   add_entry m i j p ! i' ! j' = m ! i' ! j' + (if i' = i \<and> j' = j then p else 0)"
  by (cases "i' = i"; cases "j' = j") (simp_all add: add_entry_def dims_def)

lemma sum_list_update_add:
  "j < length xs \<Longrightarrow> sum_list (xs[j := xs ! j + p]) = sum_list xs + (p::rat)"
proof (induction xs arbitrary: j)
  case Nil
  then show ?case by simp
next
  case (Cons x xs)
  then show ?case by (cases j) simp_all
qed

lemma row_sum_add_entry:
  "dims m \<Longrightarrow> i < 40 \<Longrightarrow> j < 40 \<Longrightarrow>
   sum_list (add_entry m i j p ! i') = sum_list (m ! i') + (if i' = i then p else 0)"
  by (cases "i' = i") (simp_all add: add_entry_def dims_def sum_list_update_add)

lemma dims_zero: "dims (replicate 40 (replicate 40 0))"
  by (simp add: dims_def)

subsection \<open>The card destinations\<close>

lemma nearest_station_cases: "nearest_station d \<in> {5, 15, 25, 35}"
  by (simp add: nearest_station_def STATIONS_def)

lemma nearest_utility_cases: "nearest_utility d \<in> {12, 28}"
  by (simp add: nearest_utility_def UTILITIES_def)

lemma nearest_station_lt [simp]: "nearest_station d < 40"
  using nearest_station_cases [of d] by auto

lemma nearest_utility_lt [simp]: "nearest_utility d < 40"
  using nearest_utility_cases [of d] by auto

lemma back_three_lt [simp]: "back_three d < 40"
  by (simp add: back_three_def BOARD_SIZE_def nat_less_iff)

lemma chance_values:
  "nearest_station 7 = 15" "nearest_station 22 = 25" "nearest_station 36 = 5"
  "nearest_utility 7 = 12" "nearest_utility 22 = 28" "nearest_utility 36 = 12"
  "back_three 7 = 4" "back_three 22 = 19" "back_three 36 = 33"
  by (simp_all add: nearest_station_def nearest_utility_def back_three_def
      STATIONS_def UTILITIES_def BOARD_SIZE_def)

subsection \<open>One iteration of the inner loop\<close>

lemma dims_landing_step [simp]: "dims m \<Longrightarrow> dims (landing_step dice m i r)"
  by (simp add: landing_step_def Let_def)

lemma dims_doubles_step [simp]: "dims m \<Longrightarrow> dims (doubles_step m i)"
  by (simp add: doubles_step_def)

lemma dims_roll_body [simp]: "dims m \<Longrightarrow> dims (roll_body dice m i r)"
  by (simp add: roll_body_def)

lemma row_sum_doubles_step:
  "dims m \<Longrightarrow> i < 40 \<Longrightarrow>
   sum_list (doubles_step m i ! i') =
     sum_list (m ! i') + (if i' = i \<and> i \<noteq> 30 then (1 / 12) ^ 3 else 0)"
  by (simp add: doubles_step_def row_sum_add_entry GO_TO_JAIL_SQUARE_def JAIL_SQUARE_def)

lemma row_sum_landing_step:
  "dims m \<Longrightarrow> i < 40 \<Longrightarrow>
   sum_list (landing_step dice m i r ! i') =
     sum_list (m ! i') + (if i' = i then dice ! r else 0)"
  by (simp add: landing_step_def Let_def row_sum_add_entry JAIL_SQUARE_def BOARD_SIZE_def)

lemma nth_doubles_step:
  "dims m \<Longrightarrow> i < 40 \<Longrightarrow>
   doubles_step m i ! i' ! j =
     m ! i' ! j + (if i' = i \<and> i \<noteq> 30 \<and> j = 10 then (1 / 12) ^ 3 else 0)"
  by (simp add: doubles_step_def nth_add_entry GO_TO_JAIL_SQUARE_def JAIL_SQUARE_def)

lemma nth_landing_step:
  "dims m \<Longrightarrow> i < 40 \<Longrightarrow> j < 40 \<Longrightarrow>
   landing_step dice m i r ! i' ! j =
     m ! i' ! j + (if i' = i then landing_mass dice i r j else 0)"
  by (simp add: landing_mass_def landing_step_def Let_def nth_add_entry dims_zero
      JAIL_SQUARE_def BOARD_SIZE_def)

subsection \<open>The loops\<close>

lemma foldl_additive:
  fixes obs :: "'s \<Rightarrow> rat"
  assumes step: "\<And>m x. P m \<Longrightarrow> x \<in> set xs \<Longrightarrow> P (f m x) \<and> obs (f m x) = obs m + d x"
    and start: "P m"
  shows "P (foldl f m xs) \<and> obs (foldl f m xs) = obs m + (\<Sum>x\<leftarrow>xs. d x)"
  using assms
proof (induction xs arbitrary: m)
  case Nil
  then show ?case by simp
next
  case (Cons x xs)
  have a: "P (f m x)" and b: "obs (f m x) = obs m + d x"
    using Cons.prems(1) [of m x] Cons.prems(2) by simp_all
  have "P (foldl f (f m x) xs) \<and> obs (foldl f (f m x) xs) = obs (f m x) + (\<Sum>x\<leftarrow>xs. d x)"
    by (rule Cons.IH) (use Cons.prems(1) a in auto)
  with b show ?case by (simp add: add.assoc)
qed

lemma sum_list_single:
  "(\<Sum>x\<leftarrow>[0..<n]. if i = x then c x else 0) = (if i < n then (c i :: rat) else 0)"
  by (induction n) auto


lemma sum_list_if_const:
  "(\<Sum>x\<leftarrow>xs. if b then f x else 0) = (if b then (\<Sum>x\<leftarrow>xs. (f x :: rat)) else 0)"
  by (induction xs) auto

lemma nth_roll_body:
  "dims m \<Longrightarrow> i < 40 \<Longrightarrow> j < 40 \<Longrightarrow>
   roll_body dice m i r ! i' ! j = m ! i' ! j + (if i' = i then roll_mass dice i r j else 0)"
  by (simp add: roll_body_def nth_landing_step nth_doubles_step roll_mass_def)

lemma row_sum_roll_body:
  "dims m \<Longrightarrow> i < 40 \<Longrightarrow>
   sum_list (roll_body dice m i r ! i') =
     sum_list (m ! i') +
       (if i' = i then (if i \<noteq> 30 then (1 / 12) ^ 3 else 0) + dice ! r else 0)"
  by (simp add: roll_body_def row_sum_landing_step row_sum_doubles_step)

lemma rolls_loop_nth:
  assumes "dims m" "i < 40" "j < 40"
  shows "dims (rolls_loop dice m i rs) \<and>
         rolls_loop dice m i rs ! i' ! j =
           m ! i' ! j + (\<Sum>r\<leftarrow>rs. if i' = i then roll_mass dice i r j else 0)"
  unfolding rolls_loop_def
  by (rule foldl_additive [where P = dims]) (simp_all add: assms nth_roll_body)

lemma rolls_loop_row_sum:
  assumes "dims m" "i < 40"
  shows "dims (rolls_loop dice m i rs) \<and>
         sum_list (rolls_loop dice m i rs ! i') =
           sum_list (m ! i') +
             (\<Sum>r\<leftarrow>rs. if i' = i then (if i \<noteq> 30 then (1 / 12) ^ 3 else 0) + dice ! r else 0)"
  unfolding rolls_loop_def
  by (rule foldl_additive [where P = dims]) (simp_all add: assms row_sum_roll_body)

lemma squares_loop_nth:
  assumes "dims m" "\<forall>i\<in>set sqs. i < 40" "j < 40"
  shows "dims (squares_loop dice m sqs) \<and>
         squares_loop dice m sqs ! i' ! j =
           m ! i' ! j +
             (\<Sum>i\<leftarrow>sqs. if i' = i then (\<Sum>r\<leftarrow>[2..<13]. roll_mass dice i r j) else 0)"
  unfolding squares_loop_def
  by (rule foldl_additive [where P = dims])
     (use assms in \<open>simp_all add: rolls_loop_nth sum_list_if_const\<close>)

lemma squares_loop_row_sum:
  assumes "dims m" "\<forall>i\<in>set sqs. i < 40"
  shows "dims (squares_loop dice m sqs) \<and>
         sum_list (squares_loop dice m sqs ! i') =
           sum_list (m ! i') +
             (\<Sum>i\<leftarrow>sqs. if i' = i
                then (\<Sum>r\<leftarrow>[2..<13]. (if i \<noteq> 30 then (1 / 12) ^ 3 else 0) + dice ! r) else 0)"
  unfolding squares_loop_def
  by (rule foldl_additive [where P = dims])
     (use assms in \<open>simp_all add: rolls_loop_row_sum sum_list_if_const\<close>)

lemma generate_eq: "generate_transition_matrix =
   squares_loop calculate_dice_probabilities (replicate 40 (replicate 40 0)) [0..<40]"
  by (simp add: generate_transition_matrix_def squares_loop_def rolls_loop_def
      BOARD_SIZE_def MIN_ROLL_def MAX_ROLL_def)

lemma dims_generate: "dims generate_transition_matrix"
  unfolding generate_eq using squares_loop_row_sum [OF dims_zero] by simp

lemma generate_nth:
  assumes "i < 40" "j < 40"
  shows "generate_transition_matrix ! i ! j =
           (\<Sum>r\<leftarrow>[2..<13]. roll_mass calculate_dice_probabilities i r j)"
  unfolding generate_eq
  using squares_loop_nth [OF dims_zero, of "[0..<40]" j calculate_dice_probabilities i] assms
  by (simp add: sum_list_single del: upt_rec_numeral)

lemma generate_row_sum:
  assumes "i < 40"
  shows "sum_list (generate_transition_matrix ! i) = (if i = 30 then 1 else 1 + 11 * (1 / 12) ^ 3)"
proof -
  have "sum_list (generate_transition_matrix ! i) =
          (\<Sum>r\<leftarrow>[2..<13]. (if i \<noteq> 30 then (1 / 12) ^ 3 else 0) + calculate_dice_probabilities ! r)"
    unfolding generate_eq
    using squares_loop_row_sum [OF dims_zero, of "[0..<40]" calculate_dice_probabilities i] assms
    by (simp add: sum_list_single sum_list_replicate del: upt_rec_numeral)
  also have "\<dots> = (\<Sum>r\<leftarrow>[2..<13]. if i \<noteq> 30 then (1 / 12) ^ 3 else (0::rat))
                  + (\<Sum>r\<leftarrow>[2..<13]. calculate_dice_probabilities ! r)"
    by (simp add: sum_list_addf)
  also have "\<dots> = (if i = 30 then 1 else 1 + 11 * (1 / 12) ^ 3)"
    by (simp add: dice_eq)
  finally show ?thesis .
qed

lemma landing_only_nth:
  assumes "i < 40" "j < 40"
  shows "landing_only_matrix ! i ! j =
           (\<Sum>r\<leftarrow>[2..<13]. landing_mass calculate_dice_probabilities i r j)"
proof -
  let ?dice = calculate_dice_probabilities
  have inner: "dims (foldl (\<lambda>matrix roll. landing_step ?dice matrix x roll) m rs) \<and>
      foldl (\<lambda>matrix roll. landing_step ?dice matrix x roll) m rs ! i ! j =
        m ! i ! j + (\<Sum>r\<leftarrow>rs. if i = x then landing_mass ?dice x r j else 0)"
    if "dims m" "x < 40" for m x rs
    by (rule foldl_additive [where P = dims]) (simp_all add: that assms nth_landing_step)
  have "dims landing_only_matrix \<and>
      landing_only_matrix ! i ! j =
        replicate 40 (replicate 40 0) ! i ! j +
          (\<Sum>x\<leftarrow>[0..<40]. if i = x then (\<Sum>r\<leftarrow>[2..<13]. landing_mass ?dice x r j) else 0)"
    unfolding landing_only_matrix_def
    by (rule foldl_additive [where P = dims])
       (simp_all add: inner dims_zero sum_list_if_const del: upt_rec_numeral)
  with assms show ?thesis
    by (simp add: sum_list_single del: upt_rec_numeral)
qed

lemma landing_mass_nonneg:
  assumes "0 \<le> dice ! r" "i < 40" "j < 40"
  shows "0 \<le> landing_mass dice i r j"
  using assms
  by (simp add: landing_mass_def landing_step_def Let_def nth_add_entry dims_zero
      JAIL_SQUARE_def BOARD_SIZE_def)

lemma landing_mass_col30:
  assumes "i < 40"
  shows "landing_mass dice i r 30 = 0"
proof -
  have s: "nearest_station d \<noteq> 30" for d
    using nearest_station_cases [of d] by auto
  have u: "nearest_utility d \<noteq> 30" for d
    using nearest_utility_cases [of d] by auto
  have b: "d \<in> set CHANCE \<Longrightarrow> back_three d \<noteq> 30" for d
    by (auto simp add: CHANCE_def chance_values)
  show ?thesis
    using assms
    by (simp add: landing_mass_def landing_step_def Let_def nth_add_entry dims_zero
      JAIL_SQUARE_def BOARD_SIZE_def GO_TO_JAIL_SQUARE_def s u b)
qed

lemma generate_nonneg:
  assumes "i < 40" "j < 40"
  shows "0 \<le> generate_transition_matrix ! i ! j"
proof -
  have "0 \<le> roll_mass calculate_dice_probabilities i r j" if "r \<in> set [2..<13]" for r
    unfolding roll_mass_def
    using landing_mass_nonneg [OF dice_nonneg [OF that] assms] by simp
  then show ?thesis
    unfolding generate_nth [OF assms] by (intro sum_list_nonneg) auto
qed

lemma generate_col30:
  assumes "i < 40"
  shows "generate_transition_matrix ! i ! 30 = 0"
  using assms
  by (simp add: generate_nth roll_mass_def landing_mass_col30 del: upt_rec_numeral)

lemma spec_nearest:
  "nearest_station 7 = spec_nearest_after STATIONS 7"
  "nearest_station 22 = spec_nearest_after STATIONS 22"
  "nearest_station 36 = spec_nearest_after STATIONS 36"
  "nearest_utility 7 = spec_nearest_after UTILITIES 7"
  "nearest_utility 22 = spec_nearest_after UTILITIES 22"
  "nearest_utility 36 = spec_nearest_after UTILITIES 36"
  by (simp_all add: chance_values spec_nearest_after_def STATIONS_def UTILITIES_def)


section \<open>Row sums of the constructed matrix\<close>

text \<open>
  C10. In exact arithmetic, row \<open>i\<close> of the constructed matrix sums to
  \<open>1 + 11 * (1/12)^3 = 1739/1728\<close> when \<open>i\<close> is not square 30, and to 1 when it is:
  the dice distribution has total mass 1 over the rolls 2..12, and the three-doubles
  term is added eleven times to every row but row 30.
\<close>

theorem row_sums_exact:
  "i < 40 \<Longrightarrow>
   sum_list (generate_transition_matrix ! i) = (if i = 30 then 1 else 1 + 11 * (1 / 12) ^ 3)
   \<and> 1 + 11 * (1 / 12) ^ 3 = (1739 / 1728 :: rat)
   \<and> (\<Sum>r\<leftarrow>[2..<13]. calculate_dice_probabilities ! r) = 1"
  by (simp add: generate_row_sum dice_total doubles_value del: upt_rec_numeral)

theorem row_sums_exact_witness:
  "sum_list (generate_transition_matrix ! 0) = 1739 / 1728
   \<and> sum_list (generate_transition_matrix ! 30) = 1"
  using row_sums_exact [of 0] row_sums_exact [of 30] by (simp add: doubles_value)

text \<open>
  C1. The row of square 0 does not sum to 1 within a tolerance of \<open>1e-9\<close>: its exact
  sum exceeds 1 by \<open>11/1728\<close>, more than six thousandths.
\<close>

theorem row_sum_outside_tolerance:
  "\<bar>sum_list (generate_transition_matrix ! 0) - 1\<bar> = 11 / 1728
   \<and> 1 / 10 ^ 9 < \<bar>sum_list (generate_transition_matrix ! 0) - 1\<bar>"
  using generate_row_sum [of 0] by (simp add: doubles_value)

section \<open>The contributions of one roll\<close>

text \<open>
  C2. The constant \<open>(1/12)^3\<close> is added to \<open>matrix[i][10]\<close> once in every iteration of the
  inner loop, which runs over the 11 roll values 2..12, when the origin \<open>i\<close> is not
  square 30, and never when it is: every iteration first applies \<open>doubles_step\<close>, which
  changes nothing but that entry, and the finished matrix differs from the one built
  without the addition by exactly \<open>11 * (1/12)^3\<close> in column 10 of every row but row 30.
\<close>

theorem three_doubles_eleven_times:
  "i < 40 \<Longrightarrow> j < 40 \<Longrightarrow>
   generate_transition_matrix ! i ! j =
     landing_only_matrix ! i ! j + (if i \<noteq> 30 \<and> j = 10 then 11 * (1 / 12) ^ 3 else 0)
   \<and> length [MIN_ROLL..<MAX_ROLL + 1] = 11
   \<and> (\<forall>m r. dims m \<longrightarrow>
         roll_body calculate_dice_probabilities m i r =
           landing_step calculate_dice_probabilities (doubles_step m i) i r
         \<and> (\<forall>i'<40. \<forall>j'<40.
               doubles_step m i ! i' ! j' =
                 m ! i' ! j' + (if i' = i \<and> j' = 10 \<and> i \<noteq> 30 then (1 / 12) ^ 3 else 0)))"
proof (intro conjI allI impI)
  assume a: "i < 40" "j < 40"
  have "(\<Sum>r\<leftarrow>[2..<13]. roll_mass calculate_dice_probabilities i r j) =
        (\<Sum>r\<leftarrow>[2..<13]. landing_mass calculate_dice_probabilities i r j)
        + (\<Sum>r\<leftarrow>[2..<13]. if i \<noteq> 30 \<and> j = 10 then (1 / 12) ^ 3 else (0::rat))"
    unfolding roll_mass_def by (simp add: sum_list_addf del: upt_rec_numeral)
  also have "(\<Sum>r\<leftarrow>[2..<13]. if i \<noteq> 30 \<and> j = 10 then (1 / 12) ^ 3 else (0::rat)) =
        (if i \<noteq> 30 \<and> j = 10 then 11 * (1 / 12) ^ 3 else 0)"
    by (simp add: upt_2_13)
  finally show "generate_transition_matrix ! i ! j =
     landing_only_matrix ! i ! j + (if i \<noteq> 30 \<and> j = 10 then 11 * (1 / 12) ^ 3 else 0)"
    using a by (simp add: generate_nth landing_only_nth del: upt_rec_numeral)
next
  show "length [MIN_ROLL..<MAX_ROLL + 1] = 11"
    by (simp add: MIN_ROLL_def MAX_ROLL_def)
next
  fix m r
  show "roll_body calculate_dice_probabilities m i r =
           landing_step calculate_dice_probabilities (doubles_step m i) i r"
    by (simp add: roll_body_def)
next
  fix m :: matrix and r :: nat and i' j'
  assume "i < 40" "dims m"
  then show "doubles_step m i ! i' ! j' =
                 m ! i' ! j' + (if i' = i \<and> j' = 10 \<and> i \<noteq> 30 then (1 / 12) ^ 3 else 0)"
    by (simp add: nth_doubles_step)
qed

theorem three_doubles_eleven_times_witness:
  "generate_transition_matrix ! 0 ! 10 = landing_only_matrix ! 0 ! 10 + 11 * (1 / 12) ^ 3
   \<and> generate_transition_matrix ! 30 ! 10 = landing_only_matrix ! 30 ! 10
   \<and> doubles_step (replicate 40 (replicate 40 0)) 0 ! 0 ! 10 = (1 / 12) ^ 3"
  using three_doubles_eleven_times [of 0 10] three_doubles_eleven_times [of 30 10] dims_zero
  by simp

text \<open>
  C6. When the raw destination \<open>(i + r) mod 40\<close> is square 30, the whole of
  \<open>dice_probs[r]\<close> is added to \<open>matrix[i][10]\<close> and no other entry changes; in particular
  \<open>matrix[i][30]\<close> receives nothing.
\<close>

theorem go_to_jail_routing:
  "dims m \<Longrightarrow> i < 40 \<Longrightarrow> r \<in> {2..12} \<Longrightarrow> (i + r) mod BOARD_SIZE = GO_TO_JAIL_SQUARE \<Longrightarrow>
   (\<forall>i'<40. \<forall>j<40.
      landing_step calculate_dice_probabilities m i r ! i' ! j =
        m ! i' ! j + (if i' = i \<and> j = 10 then calculate_dice_probabilities ! r else 0))
   \<and> landing_step calculate_dice_probabilities m i r ! i ! 30 = m ! i ! 30"
  by (simp add: landing_step_def nth_add_entry JAIL_SQUARE_def)

theorem go_to_jail_routing_witness:
  "landing_step calculate_dice_probabilities (replicate 40 (replicate 40 0)) 20 10 ! 20 ! 10 = 3 / 36
   \<and> landing_step calculate_dice_probabilities (replicate 40 (replicate 40 0)) 20 10 ! 20 ! 30 = 0"
  using go_to_jail_routing [OF dims_zero, of 20 10]
  by (simp add: BOARD_SIZE_def GO_TO_JAIL_SQUARE_def dice_eq)

text \<open>
  C5. When the raw destination \<open>d = (i + r) mod 40\<close> is a Community-Chest square,
  \<open>dice_probs[r]\<close> is split as 14/16 to \<open>matrix[i][d]\<close>, 1/16 to \<open>matrix[i][0]\<close> and 1/16 to
  \<open>matrix[i][10]\<close>; no other entry changes, and the three fractions sum to 1.
\<close>

theorem community_chest_split:
  "dims m \<Longrightarrow> i < 40 \<Longrightarrow> r \<in> {2..12} \<Longrightarrow> (i + r) mod BOARD_SIZE \<in> set COMMUNITY_CHEST \<Longrightarrow>
   (\<forall>i'<40. \<forall>j<40.
      landing_step calculate_dice_probabilities m i r ! i' ! j =
        m ! i' ! j +
          (if i' = i then
             (if j = (i + r) mod 40 then calculate_dice_probabilities ! r * (14 / 16) else 0)
           + (if j = 0 then calculate_dice_probabilities ! r * (1 / 16) else 0)
           + (if j = 10 then calculate_dice_probabilities ! r * (1 / 16) else 0)
           else 0))
   \<and> sum_list (landing_step calculate_dice_probabilities m i r ! i) =
       sum_list (m ! i) + calculate_dice_probabilities ! r
   \<and> 14 / 16 + 1 / 16 + 1 / 16 = (1::rat)"
  by (auto simp add: landing_step_def Let_def nth_add_entry row_sum_add_entry JAIL_SQUARE_def
      BOARD_SIZE_def GO_TO_JAIL_SQUARE_def COMMUNITY_CHEST_def)

theorem community_chest_split_witness:
  "landing_step calculate_dice_probabilities (replicate 40 (replicate 40 0)) 0 2 ! 0 ! 2
     = 1 / 36 * (14 / 16)
   \<and> landing_step calculate_dice_probabilities (replicate 40 (replicate 40 0)) 0 2 ! 0 ! 0
     = 1 / 36 * (1 / 16)
   \<and> landing_step calculate_dice_probabilities (replicate 40 (replicate 40 0)) 0 2 ! 0 ! 10
     = 1 / 36 * (1 / 16)
   \<and> landing_step calculate_dice_probabilities (replicate 40 (replicate 40 0)) 0 2 ! 0 ! 3 = 0"
  using community_chest_split [OF dims_zero, of 0 2]
  by (simp add: BOARD_SIZE_def COMMUNITY_CHEST_def dice_eq)

text \<open>
  C4. When the raw destination \<open>d = (i + r) mod 40\<close> is a Chance square, \<open>dice_probs[r]\<close>
  is split as 6/16 to \<open>d\<close>, 1/16 each to the squares 0, 24, 39, 11, 5, 10 and
  \<open>(d - 3) mod 40\<close>, 1/8 to the nearest station after \<open>d\<close> and 1/16 to the nearest utility
  after \<open>d\<close>, both in the spec's sense (strictly greater index, else the smallest index of
  the list: 5 and 12). Fractions that fall on the same column add up. No other entry
  changes, and the fractions sum to 1.
\<close>

theorem chance_split:
  "dims m \<Longrightarrow> i < 40 \<Longrightarrow> r \<in> {2..12} \<Longrightarrow> (i + r) mod BOARD_SIZE \<in> set CHANCE \<Longrightarrow>
   (\<forall>i'<40. \<forall>j<40.
      landing_step calculate_dice_probabilities m i r ! i' ! j =
        m ! i' ! j +
          (if i' = i then
             calculate_dice_probabilities ! r *
              ((if j = (i + r) mod 40 then 6 / 16 else 0)
             + (if j = 0 then 1 / 16 else 0)
             + (if j = 24 then 1 / 16 else 0)
             + (if j = 39 then 1 / 16 else 0)
             + (if j = 11 then 1 / 16 else 0)
             + (if j = 5 then 1 / 16 else 0)
             + (if j = 10 then 1 / 16 else 0)
             + (if j = ((i + r) mod 40 - 3) mod 40 then 1 / 16 else 0)
             + (if j = spec_nearest_after STATIONS ((i + r) mod 40) then 1 / 8 else 0)
             + (if j = spec_nearest_after UTILITIES ((i + r) mod 40) then 1 / 16 else 0))
           else 0))
   \<and> sum_list (landing_step calculate_dice_probabilities m i r ! i) =
       sum_list (m ! i) + calculate_dice_probabilities ! r
   \<and> 6 / 16 + 7 * (1 / 16) + 1 / 8 + 1 / 16 = (1::rat)
   \<and> spec_nearest_after STATIONS 36 = 5 \<and> spec_nearest_after UTILITIES 36 = 12"
proof (intro conjI)
  assume a: "dims m" "i < 40" "(i + r) mod BOARD_SIZE \<in> set CHANCE"
  have d: "(i + r) mod 40 = 7 \<or> (i + r) mod 40 = 22 \<or> (i + r) mod 40 = 36"
    using a(3) by (simp add: CHANCE_def BOARD_SIZE_def)
  show "\<forall>i'<40. \<forall>j<40.
      landing_step calculate_dice_probabilities m i r ! i' ! j =
        m ! i' ! j +
          (if i' = i then
             calculate_dice_probabilities ! r *
              ((if j = (i + r) mod 40 then 6 / 16 else 0)
             + (if j = 0 then 1 / 16 else 0)
             + (if j = 24 then 1 / 16 else 0)
             + (if j = 39 then 1 / 16 else 0)
             + (if j = 11 then 1 / 16 else 0)
             + (if j = 5 then 1 / 16 else 0)
             + (if j = 10 then 1 / 16 else 0)
             + (if j = ((i + r) mod 40 - 3) mod 40 then 1 / 16 else 0)
             + (if j = spec_nearest_after STATIONS ((i + r) mod 40) then 1 / 8 else 0)
             + (if j = spec_nearest_after UTILITIES ((i + r) mod 40) then 1 / 16 else 0))
           else 0)"
    using d a(1,2)
    by (elim disjE)
       (simp_all add: landing_step_def Let_def nth_add_entry JAIL_SQUARE_def BOARD_SIZE_def
          GO_TO_JAIL_SQUARE_def COMMUNITY_CHEST_def CHANCE_def chance_values
          spec_nearest [symmetric] algebra_simps)
  show "sum_list (landing_step calculate_dice_probabilities m i r ! i) =
       sum_list (m ! i) + calculate_dice_probabilities ! r"
    using a(1,2) by (simp add: row_sum_landing_step)
  show "6 / 16 + 7 * (1 / 16) + 1 / 8 + 1 / 16 = (1::rat)"
    by simp
  show "spec_nearest_after STATIONS 36 = 5"
    by (simp add: spec_nearest_after_def STATIONS_def)
  show "spec_nearest_after UTILITIES 36 = 12"
    by (simp add: spec_nearest_after_def UTILITIES_def)
qed

theorem chance_split_witness:
  "landing_step calculate_dice_probabilities (replicate 40 (replicate 40 0)) 0 7 ! 0 ! 7
     = 6 / 36 * (6 / 16)
   \<and> landing_step calculate_dice_probabilities (replicate 40 (replicate 40 0)) 0 7 ! 0 ! 4
     = 6 / 36 * (1 / 16)
   \<and> landing_step calculate_dice_probabilities (replicate 40 (replicate 40 0)) 0 7 ! 0 ! 15
     = 6 / 36 * (1 / 8)
   \<and> landing_step calculate_dice_probabilities (replicate 40 (replicate 40 0)) 0 7 ! 0 ! 12
     = 6 / 36 * (1 / 16)
   \<and> landing_step calculate_dice_probabilities (replicate 40 (replicate 40 0)) 0 7 ! 0 ! 8 = 0"
  using chance_split [OF dims_zero, of 0 7]
  by (simp add: BOARD_SIZE_def CHANCE_def dice_eq spec_nearest [symmetric] chance_values)

subsection \<open>The landing counter\<close>

lemma sum_bump: "sum_list (map snd (bump d k)) = sum_list (map snd d) + 1"
  by (induction d k rule: bump.induct) simp_all

lemma map_of_bump:
  "map_of (bump d k) k' = (if k' = k then Some (count_of d k + 1) else map_of d k')"
  by (induction d k rule: bump.induct) (auto simp add: count_of_def)

lemma keys_bump:
  "map fst (bump d k) = (if k \<in> set (map fst d) then map fst d else map fst d @ [k])"
  by (induction d k rule: bump.induct) auto

lemma distinct_bump: "distinct (map fst d) \<Longrightarrow> distinct (map fst (bump d k))"
  by (simp add: keys_bump)

lemma counts_le_iff:
  "counts_le a b \<longleftrightarrow>
     (\<forall>k v. map_of a k = Some v \<longrightarrow> (\<exists>v'. map_of b k = Some v' \<and> v \<le> v'))"
proof
  assume l: "counts_le a b"
  show "\<forall>k v. map_of a k = Some v \<longrightarrow> (\<exists>v'. map_of b k = Some v' \<and> v \<le> v')"
  proof (intro allI impI)
    fix k v
    assume kv: "map_of a k = Some v"
    then have "k \<in> set (map fst a)"
      by (metis map_of_eq_None_iff option.distinct(1) set_map)
    with l kv show "\<exists>v'. map_of b k = Some v' \<and> v \<le> v'"
      by (auto simp add: counts_le_def list_all_iff split: option.splits)
  qed
next
  assume r: "\<forall>k v. map_of a k = Some v \<longrightarrow> (\<exists>v'. map_of b k = Some v' \<and> v \<le> v')"
  show "counts_le a b"
    unfolding counts_le_def list_all_iff
  proof
    fix k
    assume "k \<in> set (map fst a)"
    then obtain v where "map_of a k = Some v"
      by (metis map_of_eq_None_iff not_Some_eq set_map)
    moreover from this r obtain v' where "map_of b k = Some v'" "v \<le> v'"
      by blast
    ultimately show "case map_of b k of None \<Rightarrow> False | Some v' \<Rightarrow> the (map_of a k) \<le> v'"
      by simp
  qed
qed

lemma counts_le_refl: "counts_le a a"
  by (simp add: counts_le_iff)

lemma counts_le_trans: "counts_le a b \<Longrightarrow> counts_le b c \<Longrightarrow> counts_le a c"
  unfolding counts_le_iff by (meson order_trans)

lemma counts_le_bump: "counts_le d (bump d k)"
  by (auto simp add: counts_le_iff map_of_bump count_of_def)

subsection \<open>The board\<close>

lemma length_board_spaces: "length board_spaces = 40"
  by (simp add: board_spaces_def)

lemma go_to_jail_name:
  assumes "i < 40" "i \<noteq> 30"
  shows "board_spaces ! i \<noteq> ''Go To Jail''"
proof -
  have "\<forall>i \<in> set [0..<40]. i \<noteq> 30 \<longrightarrow> board_spaces ! i \<noteq> ''Go To Jail''"
    by (simp add: board_spaces_def upt_rec)
  with assms show ?thesis by simp
qed

subsection \<open>The normalised row\<close>

lemma generate_row_sum_pos: "i < 40 \<Longrightarrow> 0 < sum_list (generate_transition_matrix ! i)"
  by (simp add: generate_row_sum doubles_value)

lemma length_generate_row: "i < 40 \<Longrightarrow> length (generate_transition_matrix ! i) = 40"
  using dims_generate by (simp add: dims_def)

lemma generate_row_nonneg:
  assumes "i < 40" "x \<in> set (generate_transition_matrix ! i)"
  shows "0 \<le> x"
proof -
  from assms(2) obtain j where "j < length (generate_transition_matrix ! i)"
    "x = generate_transition_matrix ! i ! j"
    by (auto simp add: in_set_conv_nth)
  with assms(1) show ?thesis
    by (simp add: length_generate_row generate_nonneg)
qed

lemma sum_list_divide: "sum_list (map (\<lambda>x. x / c) xs) = sum_list xs / (c::rat)"
  by (induction xs) (simp_all add: add_divide_distrib)

lemma normalised_row_distribution:
  assumes "i < 40"
  shows "distribution (map (\<lambda>x. x / sum_list (generate_transition_matrix ! i))
           (generate_transition_matrix ! i))"
proof -
  let ?row = "generate_transition_matrix ! i"
  have pos: "0 < sum_list ?row"
    by (rule generate_row_sum_pos [OF assms])
  have "0 \<le> x / sum_list ?row" if "x \<in> set ?row" for x
    using generate_row_nonneg [OF assms that] pos by simp
  moreover have "sum_list (map (\<lambda>x. x / sum_list ?row) ?row) = 1"
    using pos by (simp add: sum_list_divide)
  ultimately show ?thesis
    by (auto simp add: distribution_def list_all_iff)
qed


subsection \<open>One move\<close>

lemma Suc_mod_100_int: "(int n + 1) mod 100 = 0 \<longleftrightarrow> Suc n mod 100 = 0"
proof -
  have "(int n + 1) mod 100 = int (Suc n mod 100)"
    by (simp add: zmod_int add.commute)
  then show ?thesis by simp
qed

lemma move_keeps_invariant:
  assumes r: "move_invariant n s" and c: "draws_from choice"
  shows "\<exists>s'. move choice s = Inr s' \<and> move_invariant (Suc n) s'"
proof -
  let ?row = "generate_transition_matrix ! current_position s"
  let ?total = "sum_list ?row"
  let ?p = "map (\<lambda>x. x / ?total) ?row"
  let ?j = "choice ?p"
  let ?l = "bump (landings s) (board_spaces ! ?j)"
  let ?h = "if Suc n mod 100 = 0 then move_history s @ [?l] else move_history s"
  let ?s' = "s\<lparr>current_position := ?j, landings := ?l, moves_count := int n + 1,
                move_history := ?h\<rparr>"
  from r have pos: "current_position s < 40"
    and tm: "transition_matrix s = generate_transition_matrix"
    and mc: "moves_count s = int n"
    and keys: "distinct (map fst (landings s))"
    and total: "sum_list (map snd (landings s)) = int n"
    and gtj: "map_of (landings s) ''Go To Jail'' = None"
    and len: "length (move_history s) = n div 100"
    and chain: "\<forall>t. Suc t < length (move_history s) \<longrightarrow>
            counts_le (move_history s ! t) (move_history s ! Suc t)"
    and below: "\<forall>h\<in>set (move_history s). counts_le h (landings s)"
    by (simp_all add: move_invariant_def)
  have tpos: "0 < ?total"
    by (rule generate_row_sum_pos [OF pos])
  have nonneg: "\<not> (\<exists>x\<in>set ?row. x / ?total < 0)"
    using generate_row_nonneg [OF pos] tpos by (auto simp add: not_less)
  have "distribution ?p"
    by (rule normalised_row_distribution [OF pos])
  with c have jp: "?j < length ?p \<and> 0 < ?p ! ?j"
    unfolding draws_from_def by blast
  then have ppos: "0 < ?p ! ?j" ..
  from jp have j: "?j < 40"
    by (simp add: length_generate_row [OF pos])
  have "?p ! ?j = ?row ! ?j / ?total"
    using j by (simp add: length_generate_row [OF pos])
  with ppos generate_col30 [OF pos] have j30: "?j \<noteq> 30"
    by auto
  have name: "board_spaces ! ?j \<noteq> ''Go To Jail''"
    by (rule go_to_jail_name [OF j j30])
  have m: "move choice s = Inr ?s'"
    using pos tpos nonneg j dims_generate
    by (simp add: move_def tm mc Let_def length_board_spaces dims_def Suc_mod_100_int
        BOARD_SIZE_def)
  have below': "counts_le h ?l" if "h \<in> set (move_history s)" for h
    using below that counts_le_bump counts_le_trans by blast
  have chain': "counts_le (?h ! t) (?h ! Suc t)" if "Suc t < length ?h" for t
  proof (cases "Suc t < length (move_history s)")
    case True
    with chain show ?thesis by (simp add: nth_append)
  next
    case False
    with that have new: "Suc n mod 100 = 0" and t: "Suc t = length (move_history s)"
      by (auto split: if_splits)
    from t have "move_history s ! t \<in> set (move_history s)"
      by (metis lessI nth_mem)
    then have "counts_le (move_history s ! t) ?l"
      by (rule below')
    with new t show ?thesis
      by (simp add: nth_append)
  qed
  have "move_invariant (Suc n) ?s'"
    unfolding move_invariant_def
  proof (intro conjI)
    show "current_position ?s' < 40" using j by simp
    show "current_position ?s' \<noteq> 30" using j30 by simp
    show "transition_matrix ?s' = generate_transition_matrix" using tm by simp
    show "moves_count ?s' = int (Suc n)" by simp
    show "distinct (map fst (landings ?s'))"
      using keys by (simp add: distinct_bump)
    show "sum_list (map snd (landings ?s')) = int (Suc n)"
      using total by (simp add: sum_bump)
    show "map_of (landings ?s') ''Go To Jail'' = None"
      using gtj name by (simp add: map_of_bump)
    show "length (move_history ?s') = Suc n div 100"
      using len by (simp add: div_Suc)
    show "\<forall>t. Suc t < length (move_history ?s') \<longrightarrow>
            counts_le (move_history ?s' ! t) (move_history ?s' ! Suc t)"
      using chain' by simp
    show "\<forall>h\<in>set (move_history ?s'). counts_le h (landings ?s')"
      using below' counts_le_refl by auto
  qed
  with m show ?thesis by blast
qed

lemma move_invariant_init: "move_invariant 0 init"
  by (simp add: move_invariant_def init_def)

lemma run_moves_invariant:
  assumes "\<forall>k<n. draws_from (choice k)"
  shows "\<exists>s. run_moves choice n init = Inr s \<and> move_invariant n s"
  using assms
proof (induction n)
  case 0
  then show ?case by (simp add: move_invariant_init)
next
  case (Suc n)
  then obtain s where s: "run_moves choice n init = Inr s" "move_invariant n s"
    by auto
  from Suc.prems have "draws_from (choice n)" by simp
  from move_keeps_invariant [OF s(2) this] s(1) show ?case by simp
qed

subsection \<open>The cumulative-distribution search\<close>

lemma search_cumsum:
  assumes "list_all (\<lambda>x. 0 \<le> x) p" "acc \<le> u" "u < acc + sum_list p"
  shows "length (takeWhile (\<lambda>c. c \<le> u) (cumsum_from acc p)) < length p
         \<and> 0 < p ! length (takeWhile (\<lambda>c. c \<le> u) (cumsum_from acc p))"
  using assms
proof (induction p arbitrary: acc)
  case Nil
  then show ?case by simp
next
  case (Cons x xs)
  show ?case
  proof (cases "acc + x \<le> u")
    case True
    with Cons.prems have "list_all (\<lambda>x. 0 \<le> x) xs" "acc + x \<le> u" "u < (acc + x) + sum_list xs"
      by (simp_all add: add.assoc)
    from Cons.IH [OF this] True show ?thesis by simp
  next
    case False
    with Cons.prems show ?thesis by simp
  qed
qed

lemma cumsum_from_Nil [simp]: "cumsum_from acc p = [] \<longleftrightarrow> p = []"
  by (cases p) simp_all

lemma last_cumsum: "p \<noteq> [] \<Longrightarrow> last (cumsum_from acc p) = acc + sum_list p"
  by (induction p arbitrary: acc) (auto simp add: add.assoc)

lemma draws_from_inverse_cdf:
  assumes "0 \<le> u" "u < 1"
  shows "draws_from (inverse_cdf_choice u)"
  unfolding draws_from_def
proof (intro allI impI)
  fix p
  assume d: "distribution p"
  then have "p \<noteq> []" by (auto simp add: distribution_def)
  with d have "last (cumsum_from 0 p) = 1"
    by (simp add: last_cumsum distribution_def)
  then have "inverse_cdf_choice u p = length (takeWhile (\<lambda>c. c \<le> u) (cumsum_from 0 p))"
    by (simp add: inverse_cdf_choice_def)
  with search_cumsum [of p 0 u] d assms
  show "inverse_cdf_choice u p < length p \<and> 0 < p ! inverse_cdf_choice u p"
    by (simp add: distribution_def)
qed


lemma move_matrix: "move choice s = Inr s' \<Longrightarrow> transition_matrix s' = transition_matrix s"
  by (auto simp add: move_def Let_def split: if_splits)

section \<open>The simulation\<close>

text \<open>
  C3. With a sampler that does what \<open>np.random.choice\<close> does, \<open>N\<close> calls of \<open>move\<close> from
  the freshly constructed state all return, and afterwards the counts of the landing
  counter (whose keys are distinct) sum to \<open>N\<close>, the history has \<open>N div 100\<close> entries, and
  every key of a snapshot is a key of the next snapshot with a count at least as large.
\<close>

theorem landing_totals_and_history:
  "\<forall>k<N. draws_from (choice k) \<Longrightarrow>
   \<exists>s. run_moves choice N init = Inr s
     \<and> distinct (map fst (landings s))
     \<and> sum_list (map snd (landings s)) = int N
     \<and> length (move_history s) = N div 100
     \<and> (\<forall>t. Suc t < length (move_history s) \<longrightarrow>
          (\<forall>k v. map_of (move_history s ! t) k = Some v \<longrightarrow>
             (\<exists>v'. map_of (move_history s ! Suc t) k = Some v' \<and> v \<le> v')))"
proof -
  assume "\<forall>k<N. draws_from (choice k)"
  then obtain s where s: "run_moves choice N init = Inr s" "move_invariant N s"
    using run_moves_invariant by blast
  from s(2) have "\<forall>t. Suc t < length (move_history s) \<longrightarrow>
      counts_le (move_history s ! t) (move_history s ! Suc t)"
    by (simp add: move_invariant_def)
  then have "\<forall>t. Suc t < length (move_history s) \<longrightarrow>
          (\<forall>k v. map_of (move_history s ! t) k = Some v \<longrightarrow>
             (\<exists>v'. map_of (move_history s ! Suc t) k = Some v' \<and> v \<le> v'))"
    by (simp add: counts_le_iff)
  with s show ?thesis
    by (auto simp add: move_invariant_def)
qed

theorem landing_totals_and_history_witness:
  "\<exists>s. run_moves (\<lambda>k. inverse_cdf_choice (1 / 2)) 250 init = Inr s
     \<and> sum_list (map snd (landings s)) = 250
     \<and> length (move_history s) = 2"
proof -
  have "\<forall>k<250. draws_from ((\<lambda>k::nat. inverse_cdf_choice (1 / 2)) k)"
    by (simp add: draws_from_inverse_cdf)
  from landing_totals_and_history [OF this]
  obtain s where s: "run_moves (\<lambda>k. inverse_cdf_choice (1 / 2)) 250 init = Inr s"
    "sum_list (map snd (landings s)) = int 250" "length (move_history s) = 250 div 100"
    by blast
  have "sum_list (map snd (landings s)) = 250" using s(2) by simp
  moreover have "length (move_history s) = 2" using s(3) by simp
  ultimately show ?thesis using s(1) by blast
qed

text \<open>
  C9. Column 30 of the constructed matrix is zero in every row. Therefore, with a sampler
  that only draws indices of positive probability, no number of moves from the initial
  state leaves \<open>current_position\<close> at 30, and the landing counter never gets the key
  \<open>Go To Jail\<close> (the name of square 30): its count stays 0.
\<close>

theorem never_on_go_to_jail:
  "i < 40 \<Longrightarrow> \<forall>k<N. draws_from (choice k) \<Longrightarrow>
   generate_transition_matrix ! i ! 30 = 0
   \<and> board_spaces ! 30 = ''Go To Jail''
   \<and> (\<exists>s. run_moves choice N init = Inr s
        \<and> current_position s \<noteq> 30
        \<and> map_of (landings s) ''Go To Jail'' = None
        \<and> count_of (landings s) ''Go To Jail'' = 0)"
proof (intro conjI)
  assume "i < 40"
  then show "generate_transition_matrix ! i ! 30 = 0"
    by (rule generate_col30)
  show "board_spaces ! 30 = ''Go To Jail''"
    by (simp add: board_spaces_def)
  assume "\<forall>k<N. draws_from (choice k)"
  then obtain s where "run_moves choice N init = Inr s" "move_invariant N s"
    using run_moves_invariant by blast
  then show "\<exists>s. run_moves choice N init = Inr s
        \<and> current_position s \<noteq> 30
        \<and> map_of (landings s) ''Go To Jail'' = None
        \<and> count_of (landings s) ''Go To Jail'' = 0"
    by (auto simp add: move_invariant_def count_of_def)
qed

theorem never_on_go_to_jail_witness:
  "generate_transition_matrix ! 20 ! 30 = 0
   \<and> (\<exists>s. run_moves (\<lambda>k. inverse_cdf_choice (1 / 3)) 7 init = Inr s
        \<and> current_position s \<noteq> 30
        \<and> count_of (landings s) ''Go To Jail'' = 0)"
proof -
  have "\<forall>k<7. draws_from ((\<lambda>k::nat. inverse_cdf_choice (1 / 3)) k)"
    by (simp add: draws_from_inverse_cdf)
  have "(20::nat) < 40" by simp
  from never_on_go_to_jail [OF this \<open>\<forall>k<7. draws_from ((\<lambda>k::nat. inverse_cdf_choice (1 / 3)) k)\<close>]
  show ?thesis by blast
qed

text \<open>
  C8. \<open>move\<close> never changes the transition matrix: after any number of moves from any
  state, with any sampler, the matrix is the one the state started with; from the initial
  state it is the constructed matrix.
\<close>

theorem matrix_unchanged:
  "run_moves choice n s = Inr s' \<Longrightarrow>
   transition_matrix s' = transition_matrix s
   \<and> (s = init \<longrightarrow> transition_matrix s' = generate_transition_matrix)"
proof (induction n arbitrary: s')
  case 0
  then show ?case by (auto simp add: init_def)
next
  case (Suc n)
  from Suc.prems obtain s1 where s1: "run_moves choice n s = Inr s1" "move (choice n) s1 = Inr s'"
    by (auto split: sum.splits)
  from Suc.IH [OF s1(1)] move_matrix [OF s1(2)] show ?case
    by (simp add: init_def)
qed

theorem matrix_unchanged_witness:
  "\<exists>s'. run_moves (\<lambda>k. inverse_cdf_choice (1 / 4)) 3 init = Inr s'
     \<and> transition_matrix s' = generate_transition_matrix"
proof -
  have "\<forall>k<3. draws_from ((\<lambda>k::nat. inverse_cdf_choice (1 / 4)) k)"
    by (simp add: draws_from_inverse_cdf)
  from run_moves_invariant [OF this]
  obtain s' where s': "run_moves (\<lambda>k. inverse_cdf_choice (1 / 4)) 3 init = Inr s'"
    by blast
  from matrix_unchanged [OF this] s' show ?thesis
    by blast
qed

end
